theory Spec2Isabelle
  imports Main "HOL-Library.Word" "HOL-Library.Multiset" "HOL-Library.Sublist"
    "HOL-Library.AList" "HOL-Library.Char_ord" "HOL-Library.List_Lexorder"
    "HOL-Library.Product_Lexorder"
begin

section \<open>Parts\<close>

text \<open>
  The restore engine of \<^verbatim>\<open>lib/backup/actions\<close> works on parts: byte ranges of files.
  The Go struct \<^verbatim>\<open>common.Part\<close> has a path and four \<^verbatim>\<open>uint64\<close> fields, which are
  64-bit words here, so that \<open>+\<close> and \<open>-\<close> wrap around as in Go and \<open><\<close> is the unsigned
  comparison.
\<close>

type_synonym u64 = "64 word"

record Part =
  Path :: string
  FileSize :: u64
  Offset :: u64
  Size :: u64
  ActualSize :: u64

text \<open>The zero value of the struct: what \<^verbatim>\<open>var pOld common.Part\<close> holds.\<close>

definition zero_Part :: Part where
  "zero_Part = \<lparr>Path = [], FileSize = 0, Offset = 0, Size = 0, ActualSize = 0\<rparr>"

section \<open>Errors\<close>

text \<open>
  Every \<^verbatim>\<open>fmt.Errorf\<close> of the modelled functions is a constructor that keeps the values
  the message prints. \<open>os_error\<close> stands for the errors of the operating system:
  \<open>ENOENT\<close> is the one \<^verbatim>\<open>os.IsNotExist\<close> recognises.
\<close>

datatype os_error = ENOENT | ENOTEMPTY | EIO

text \<open>The errors of the methods of \<^verbatim>\<open>fslocal.FS\<close>; a panic is one of them.\<close>

datatype fs_error =
    OsError os_error
  | PanicUnexpectedPrefix string string
  | CannotStat string os_error
  | CannotOpen string string os_error
  | CannotStatOpened string string os_error
  | CannotRemove string os_error
  | CannotCreateDirectory string os_error
  | CannotOpenWriter string u64 os_error

text \<open>The ways a download of one part fails.\<close>

datatype download_error =
    RemoteError os_error
  | WriteError os_error
  | WrongByteCount int u64

text \<open>The errors of \<^verbatim>\<open>Restore.Run\<close>.\<close>

datatype error =
    CannotListSrc os_error
  | CannotListDst fs_error
  | InvalidFileSize string u64 u64
  | Overlap u64 Part Part
  | GapFromStart u64 Part
  | Gap u64 Part Part
  | InvalidPartSize Part u64 u64
  | CannotDelete string fs_error
  | CannotRemoveEmptyDirs os_error
  | CannotListDstAfterDeletion fs_error
  | CannotCreateWriter Part fs_error
  | CannotDownload Part download_error
  | CannotClose Part os_error

section \<open>Validation of the source parts\<close>

text \<open>
  The loop of \<^verbatim>\<open>Restore.Run\<close> that follows \<^verbatim>\<open>common.SortParts(srcParts)\<close>. Its local
  variables \<^verbatim>\<open>offset\<close>, \<^verbatim>\<open>pOld\<close> and \<^verbatim>\<open>path\<close> are the loop state.
\<close>

record vstate =
  v_offset :: u64
  v_pOld :: Part
  v_path :: string

definition v_init :: vstate where
  "v_init = \<lparr>v_offset = 0, v_pOld = zero_Part, v_path = []\<rparr>"

text \<open>One iteration of the loop: the body for the part \<open>p\<close>.\<close>

definition validate_step :: "vstate \<Rightarrow> Part \<Rightarrow> error + vstate" where
  "validate_step s p =
     (if Path p \<noteq> v_path s \<and> v_offset s \<noteq> FileSize (v_pOld s)
      then Inl (InvalidFileSize (v_path s) (v_offset s) (FileSize (v_pOld s)))
      else
        let s1 = (if Path p \<noteq> v_path s
                  then \<lparr>v_offset = 0, v_pOld = p, v_path = Path p\<rparr> else s);
            offset = v_offset s1;
            pOld = v_pOld s1
        in if Offset p < offset then Inl (Overlap (offset - Offset p) pOld p)
           else if Offset p > offset then
             (if offset = 0 then Inl (GapFromStart (Offset p) p)
              else Inl (Gap (Offset p - offset) pOld p))
           else if Size p \<noteq> ActualSize p then Inl (InvalidPartSize p (ActualSize p) (Size p))
           else Inr (s1\<lparr>v_offset := offset + Size p\<rparr>))"

fun validate_loop :: "vstate \<Rightarrow> Part list \<Rightarrow> error + vstate" where
  "validate_loop s [] = Inr s"
| "validate_loop s (p # ps) =
     (case validate_step s p of Inl e \<Rightarrow> Inl e | Inr s' \<Rightarrow> validate_loop s' ps)"

text \<open>
  The whole validation of the sorted parts: the loop from the initial state. After the
  loop the code goes straight on to \<^verbatim>\<open>common.PartsDifference\<close>.
\<close>

definition validate :: "Part list \<Rightarrow> error + vstate" where
  "validate srcParts = validate_loop v_init srcParts"

section \<open>Properties of the validation\<close>

text \<open>
  Claim C1 (closure of the final file). The claim says that a sorted part set whose last
  file is not covered up to its \<open>file_size\<close> is rejected. The loop checks the closure of a
  file only when it meets a part of the next path, so the last file is never checked: the
  single part \<open>{path f, file_size 10, offset 0, size 4}\<close> passes the validation, which ends
  with the accumulated offset 4 although the file size is 10.
\<close>

theorem validate_accepts_unclosed_last_file:
  "validate [\<lparr>Path = ''f'', FileSize = 10, Offset = 0, Size = 4, ActualSize = 4\<rparr>]
     = Inr \<lparr>v_offset = 4,
            v_pOld = \<lparr>Path = ''f'', FileSize = 10, Offset = 0, Size = 4, ActualSize = 4\<rparr>,
            v_path = ''f''\<rparr>"
  by (simp add: validate_def v_init_def zero_Part_def validate_step_def)

section \<open>Difference of part lists\<close>

text \<open>
  Modelled from the spec: \<^verbatim>\<open>common.PartsDifference\<close> is called by \<^verbatim>\<open>Restore.Run\<close> but
  its package is not among the sources. The spec defines \<open>diff(A, B)\<close> as the elements of
  \<open>A\<close> not present in \<open>B\<close>, where two parts are the same when path, file size, offset and
  size match; the actual size is not part of the identity. The input order is kept.
\<close>

definition same_part :: "Part \<Rightarrow> Part \<Rightarrow> bool" where
  "same_part p q \<longleftrightarrow>
     Path p = Path q \<and> FileSize p = FileSize q \<and> Offset p = Offset q \<and> Size p = Size q"

definition present :: "Part \<Rightarrow> Part list \<Rightarrow> bool" where
  "present p B = list_ex (same_part p) B"

definition PartsDifference :: "Part list \<Rightarrow> Part list \<Rightarrow> Part list" where
  "PartsDifference A B = filter (\<lambda>p. \<not> present p B) A"


section \<open>Properties of the difference\<close>

lemma present_iff: "present p B \<longleftrightarrow> (\<exists>q\<in>set B. same_part p q)"
  by (simp add: present_def list_ex_iff)

lemma present_ActualSize [simp]: "present (p\<lparr>ActualSize := a\<rparr>) B = present p B"
  by (simp add: present_iff same_part_def)

lemma present_self: "p \<in> set B \<Longrightarrow> present p B"
  by (auto simp: present_iff same_part_def)

lemma PartsDifference_Nil [simp]: "PartsDifference [] B = []"
  by (simp add: PartsDifference_def)


text \<open>
  Claim C3 (difference). The result holds exactly the elements of \<open>A\<close> that are not
  present in \<open>B\<close>, in the order of \<open>A\<close>; presence ignores the actual size; every element
  of the result is in \<open>A\<close> and not in \<open>B\<close>; and the result together with the elements of
  \<open>A\<close> present in \<open>B\<close> makes up \<open>A\<close> again (as multisets, so up to order).
\<close>

theorem PartsDifference_correct:
  "set (PartsDifference A B) = {p \<in> set A. \<not> (\<exists>q\<in>set B. same_part p q)}
   \<and> (\<forall>p\<in>set (PartsDifference A B). p \<in> set A \<and> p \<notin> set B)
   \<and> (\<forall>p a b. present (p\<lparr>ActualSize := a\<rparr>) (map (\<lambda>q. q\<lparr>ActualSize := b\<rparr>) B) = present p B)
   \<and> mset (PartsDifference A B) + mset (filter (\<lambda>p. present p B) A) = mset A"
proof -
  have 1: "set (PartsDifference A B) = {p \<in> set A. \<not> (\<exists>q\<in>set B. same_part p q)}"
    by (auto simp: PartsDifference_def present_iff)
  have 2: "\<forall>p\<in>set (PartsDifference A B). p \<in> set A \<and> p \<notin> set B"
    by (auto simp: PartsDifference_def dest: present_self)
  have 3: "\<forall>p a b. present (p\<lparr>ActualSize := a\<rparr>) (map (\<lambda>q. q\<lparr>ActualSize := b\<rparr>) B) = present p B"
    by (auto simp: present_iff same_part_def)
  have 4: "mset (PartsDifference A B) + mset (filter (\<lambda>p. present p B) A) = mset A"
    by (induction A) (auto simp: PartsDifference_def)
  from 1 2 3 4 show ?thesis by blast
qed

theorem PartsDifference_correct_witness:
  "PartsDifference
     [\<lparr>Path = ''a'', FileSize = 3, Offset = 0, Size = 3, ActualSize = 3\<rparr>,
      \<lparr>Path = ''b'', FileSize = 1, Offset = 0, Size = 1, ActualSize = 1\<rparr>]
     [\<lparr>Path = ''a'', FileSize = 3, Offset = 0, Size = 3, ActualSize = 7\<rparr>]
   = [\<lparr>Path = ''b'', FileSize = 1, Offset = 0, Size = 1, ActualSize = 1\<rparr>]
   \<and> \<lparr>Path = ''b'', FileSize = 1, Offset = 0, Size = 1, ActualSize = 1\<rparr>
       \<notin> set [\<lparr>Path = ''a'', FileSize = 3, Offset = 0, Size = 3, ActualSize = 7\<rparr>]"
  using PartsDifference_correct
    [of "[\<lparr>Path = ''a'', FileSize = 3, Offset = 0, Size = 3, ActualSize = 3\<rparr>,
          \<lparr>Path = ''b'', FileSize = 1, Offset = 0, Size = 1, ActualSize = 1\<rparr>]"
        "[\<lparr>Path = ''a'', FileSize = 3, Offset = 0, Size = 3, ActualSize = 7\<rparr>]"]
  by (simp add: PartsDifference_def present_def same_part_def)

section \<open>The local file system\<close>

text \<open>
  The operating system under \<^verbatim>\<open>fslocal.FS\<close>: the regular files with their bytes, by
  full name and in the order a directory walk meets them; the directories that were
  created explicitly; and the system calls that fail. A directory exists when it is
  listed or when a file lies below it. A system call on a name fails with \<open>EIO\<close> when
  the pair is in \<open>broken\<close>, so that every error return of the code is a branch of the
  model.
\<close>

type_synonym byte = "8 word"

datatype syscall =
  SysStat | SysWalk | SysOpen | SysFstat | SysRemove | SysRmdir | SysMkdir | SysCreate
  | SysWrite | SysFsync

record os_state =
  dirs :: "string list"
  files :: "(string \<times> byte list) list"
  broken :: "(syscall \<times> string) list"

definition fails :: "os_state \<Rightarrow> syscall \<Rightarrow> string \<Rightarrow> bool" where
  "fails st c name \<longleftrightarrow> (c, name) \<in> set (broken st)"

definition below :: "string \<Rightarrow> string \<Rightarrow> bool" where
  "below d name \<longleftrightarrow> prefix (d @ ''/'') name"

definition dir_exists :: "os_state \<Rightarrow> string \<Rightarrow> bool" where
  "dir_exists st d \<longleftrightarrow> d \<in> set (dirs st) \<or> list_ex (below d) (map fst (files st))"

text \<open>
  \<^verbatim>\<open>os.Stat\<close> followed by \<^verbatim>\<open>fi.Size()\<close>: the length of a regular file. The size of a
  directory depends on the system; the model reports 0 for it.
\<close>

definition os_Stat :: "os_state \<Rightarrow> string \<Rightarrow> os_error + u64" where
  "os_Stat st name =
     (if fails st SysStat name then Inl EIO
      else case map_of (files st) name of
             Some bs \<Rightarrow> Inr (of_nat (length bs))
           | None \<Rightarrow> if dir_exists st name then Inr 0 else Inl ENOENT)"

definition os_Open :: "os_state \<Rightarrow> string \<Rightarrow> os_error + unit" where
  "os_Open st name =
     (if fails st SysOpen name then Inl EIO
      else if map_of (files st) name \<noteq> None \<or> dir_exists st name then Inr ()
      else Inl ENOENT)"

text \<open>\<^verbatim>\<open>f.Stat()\<close> on an open file, followed by \<^verbatim>\<open>fi.Size()\<close>.\<close>

definition os_Fstat :: "os_state \<Rightarrow> string \<Rightarrow> os_error + u64" where
  "os_Fstat st name =
     (if fails st SysFstat name then Inl EIO
      else case map_of (files st) name of
             Some bs \<Rightarrow> Inr (of_nat (length bs))
           | None \<Rightarrow> Inr 0)"

text \<open>\<^verbatim>\<open>os.Remove\<close> removes a regular file or an empty directory.\<close>

definition os_Remove :: "os_state \<Rightarrow> string \<Rightarrow> os_error + os_state" where
  "os_Remove st name =
     (if fails st SysRemove name then Inl EIO
      else if map_of (files st) name \<noteq> None
        then Inr (st\<lparr>files := AList.delete name (files st)\<rparr>)
      else if list_ex (below name) (map fst (files st)) then Inl ENOTEMPTY
      else if name \<in> set (dirs st) then Inr (st\<lparr>dirs := removeAll name (dirs st)\<rparr>)
      else Inl ENOENT)"

text \<open>
  Modelled from the spec: \<^verbatim>\<open>fscommon.AppendFiles\<close> is not among the sources. The spec
  has the enumeration walk the directory recursively and collect the regular files; the
  names it returns are full names, below the directory.
\<close>

definition AppendFiles :: "os_state \<Rightarrow> string \<Rightarrow> os_error + string list" where
  "AppendFiles st dir =
     (if fails st SysWalk dir then Inl EIO
      else Inr (filter (below dir) (map fst (files st))))"

section \<open>fslocal.FS\<close>

record FS =
  Dir :: string

text \<open>
  The inner loop of \<^verbatim>\<open>FS.ListParts\<close>, which slices one file of a positive size.
  \<^verbatim>\<open>common.MaxPartSize\<close> is declared in a package that is not among the sources, so
  it is the parameter \<open>mps\<close>. With \<open>mps = 0\<close> the loop never ends: the function is
  partial, and \<open>None\<close> is the run that does not return.
\<close>

partial_function (option) slice_loop ::
  "u64 \<Rightarrow> string \<Rightarrow> u64 \<Rightarrow> u64 \<Rightarrow> Part list \<Rightarrow> Part list option" where
  "slice_loop mps path sz offset parts =
     (if offset < sz then
        let n0 = sz - offset;
            n = (if n0 > mps then mps else n0)
        in slice_loop mps path sz (offset + n)
             (parts @ [\<lparr>Path = path, FileSize = sz, Offset = offset, Size = n,
                        ActualSize = n\<rparr>])
      else Some parts)"

text \<open>The outer loop of \<^verbatim>\<open>FS.ListParts\<close>, over the files; \<open>dir\<close> ends with a slash.\<close>

fun ListParts_loop ::
  "u64 \<Rightarrow> os_state \<Rightarrow> string \<Rightarrow> string list \<Rightarrow> Part list \<Rightarrow> (fs_error + Part list) option"
where
  "ListParts_loop mps st dir [] parts = Some (Inr parts)"
| "ListParts_loop mps st dir (file # fs) parts =
     (if \<not> prefix dir file then Some (Inl (PanicUnexpectedPrefix file dir))
      else case os_Stat st file of
        Inl e \<Rightarrow> Some (Inl (CannotStat file e))
      | Inr sz \<Rightarrow>
          let path = drop (length dir) file in
          if sz = 0 then
            ListParts_loop mps st dir fs
              (parts @ [\<lparr>Path = path, FileSize = 0, Offset = 0, Size = 0, ActualSize = 0\<rparr>])
          else (case slice_loop mps path sz 0 parts of
                  None \<Rightarrow> None
                | Some parts' \<Rightarrow> ListParts_loop mps st dir fs parts'))"

definition ListParts :: "u64 \<Rightarrow> FS \<Rightarrow> os_state \<Rightarrow> (fs_error + Part list) option" where
  "ListParts mps fs st =
     (case os_Stat st (Dir fs) of
        Inl e \<Rightarrow> if e = ENOENT then Some (Inr []) else Some (Inl (OsError e))
      | Inr _ \<Rightarrow>
          (case AppendFiles st (Dir fs) of
             Inl e \<Rightarrow> Some (Inl (OsError e))
           | Inr fs' \<Rightarrow> ListParts_loop mps st (Dir fs @ ''/'') fs' []))"

text \<open>
  \<^verbatim>\<open>FS.path\<close>: the loop that strips the slashes at the end works on the local variable
  \<^verbatim>\<open>dir\<close>, and the result is built from \<^verbatim>\<open>fs.Dir\<close>, so the stripping has no effect.
\<close>

definition fs_path :: "FS \<Rightarrow> string \<Rightarrow> string" where
  "fs_path fs path = Dir fs @ ''/'' @ path"

text \<open>\<^verbatim>\<open>FS.DeletePath\<close>: the size of the deleted file, and the new state.\<close>

definition DeletePath :: "FS \<Rightarrow> string \<Rightarrow> os_state \<Rightarrow> (fs_error + u64) \<times> os_state" where
  "DeletePath fs path st =
     (let fullPath = fs_path fs path in
      case os_Open st fullPath of
        Inl e \<Rightarrow> if e = ENOENT then (Inr 0, st) else (Inl (CannotOpen path fullPath e), st)
      | Inr _ \<Rightarrow>
          (case os_Fstat st fullPath of
             Inl e \<Rightarrow> (Inl (CannotStatOpened path fullPath e), st)
           | Inr sz \<Rightarrow>
               (case os_Remove st fullPath of
                  Inl e \<Rightarrow> (Inl (CannotRemove fullPath e), st)
                | Inr st' \<Rightarrow> (Inr sz, st'))))"

text \<open>
  Modelled from the spec: \<^verbatim>\<open>fscommon.RemoveEmptyDirs\<close> is not among the sources. The
  spec has it remove every directory under \<^verbatim>\<open>dir\<close> that holds no regular file, except
  \<^verbatim>\<open>dir\<close> itself; regular files are not touched.
\<close>

definition RemoveEmptyDirs :: "FS \<Rightarrow> os_state \<Rightarrow> os_error + os_state" where
  "RemoveEmptyDirs fs st =
     (if fails st SysRmdir (Dir fs) then Inl EIO
      else Inr (st\<lparr>dirs := filter (\<lambda>d. \<not> below (Dir fs) d
                                  \<or> list_ex (below d) (map fst (files st))) (dirs st)\<rparr>))"









section \<open>The restore engine\<close>

text \<open>
  \<^verbatim>\<open>statWriter.Write\<close>: the write goes to the wrapped writer \<open>wr\<close>, and the number of
  bytes it reports, converted with \<^verbatim>\<open>uint64(n)\<close>, is added to the shared counter. The
  state is the state of the wrapped writer together with the counter.
\<close>

definition statWriter_Write ::
  "(byte list \<Rightarrow> 'w \<Rightarrow> (int \<times> 'e option) \<times> 'w) \<Rightarrow> byte list \<Rightarrow> 'w \<times> u64
     \<Rightarrow> (int \<times> 'e option) \<times> ('w \<times> u64)"
where
  "statWriter_Write wr p s =
     (let r = wr p (fst s); n = fst (fst r); err = snd (fst r)
      in ((n, err), (snd r, snd s + word_of_int n)))"



text \<open>
  Modelled from the spec: \<^verbatim>\<open>common.SortParts\<close> is not among the sources. The spec's
  canonical order is by path, then by offset.
\<close>

definition SortParts :: "Part list \<Rightarrow> Part list" where
  "SortParts parts = sort_key (\<lambda>p. (Path p, Offset p)) parts"







text \<open>
  The deletion of \<^verbatim>\<open>Restore.Run\<close>: the loop over the paths to delete, then the removal
  of the empty directories. \<open>ord\<close> is the order in which the Go map \<^verbatim>\<open>pathsToDelete\<close>
  is iterated.
\<close>

fun delete_loop :: "FS \<Rightarrow> string list \<Rightarrow> u64 \<Rightarrow> os_state \<Rightarrow> (error + u64) \<times> os_state" where
  "delete_loop fs [] deleteSize st = (Inr deleteSize, st)"
| "delete_loop fs (path # paths) deleteSize st =
     (case DeletePath fs path st of
        (Inl e, st') \<Rightarrow> (Inl (CannotDelete path e), st')
      | (Inr sz, st') \<Rightarrow> delete_loop fs paths (deleteSize + sz) st')"

definition delete_phase ::
  "(string list \<Rightarrow> string list) \<Rightarrow> FS \<Rightarrow> Part list \<Rightarrow> os_state \<Rightarrow> (error + u64) \<times> os_state"
where
  "delete_phase ord fs partsToDelete st =
     (if length partsToDelete > 0 then
        let pathsToDelete = ord (remdups (map Path partsToDelete)) in
        case delete_loop fs pathsToDelete 0 st of
          (Inl e, st') \<Rightarrow> (Inl e, st')
        | (Inr deleteSize, st') \<Rightarrow>
            (case RemoveEmptyDirs fs st' of
               Inl e \<Rightarrow> (Inl (CannotRemoveEmptyDirs e), st')
             | Inr st'' \<Rightarrow> (Inr deleteSize, st''))
      else (Inr 0, st))"


text \<open>
  \<^verbatim>\<open>Restore.Run\<close>. The result is the error or the totals of the last log line, and the
  state of the file system; \<open>None\<close> is a run that does not return.
\<close>

record totals =
  backupSize :: u64
  deleteSize :: u64
  downloadSize :: u64


section \<open>The slicing of a file\<close>

text \<open>
  The spec's slicing of a file of length \<open>sz\<close>, to compare the loops of \<^verbatim>\<open>FS.ListParts\<close>
  with: consecutive parts of the maximum size, except the last one, which is the
  remainder. \<open>slice_at\<close> is the part number \<open>i\<close>, \<open>slice_count\<close> the number of parts, and
  \<open>file_parts\<close> the parts of the file, a file of length zero having one empty part.
\<close>

definition slice_at :: "u64 \<Rightarrow> string \<Rightarrow> u64 \<Rightarrow> nat \<Rightarrow> Part" where
  "slice_at mps path sz i =
     (let off = i * unat mps; n = min (unat mps) (unat sz - off)
      in \<lparr>Path = path, FileSize = sz, Offset = of_nat off, Size = of_nat n,
           ActualSize = of_nat n\<rparr>)"

definition slice_count :: "u64 \<Rightarrow> u64 \<Rightarrow> nat" where
  "slice_count mps sz = (unat sz + unat mps - 1) div unat mps"

definition file_parts :: "u64 \<Rightarrow> string \<Rightarrow> u64 \<Rightarrow> Part list" where
  "file_parts mps path sz =
     (if sz = 0 then [\<lparr>Path = path, FileSize = 0, Offset = 0, Size = 0, ActualSize = 0\<rparr>]
      else map (slice_at mps path sz) [0..<slice_count mps sz])"

text \<open>The files below the directory of \<open>fs\<close>, and the path of a file relative to it.\<close>

definition listed :: "FS \<Rightarrow> os_state \<Rightarrow> (string \<times> byte list) list" where
  "listed fs st = filter (\<lambda>e. below (Dir fs) (fst e)) (files st)"

definition rel_path :: "FS \<Rightarrow> string \<Rightarrow> string" where
  "rel_path fs name = drop (length (Dir fs @ ''/'')) name"

declare slice_loop.simps [code]

lemma slice_count_less:
  assumes "0 < unat mps"
  shows "k < slice_count mps sz \<longleftrightarrow> k * unat mps < unat sz"
proof -
  have "k < slice_count mps sz \<longleftrightarrow> Suc k \<le> (unat sz + unat mps - 1) div unat mps"
    by (simp add: slice_count_def Suc_le_eq)
  also have "\<dots> \<longleftrightarrow> Suc k * unat mps \<le> unat sz + unat mps - 1"
    using assms by (simp add: less_eq_div_iff_mult_less_eq)
  also have "\<dots> \<longleftrightarrow> k * unat mps < unat sz"
    using assms by auto
  finally show ?thesis .
qed

text \<open>One iteration of the inner loop, at the offset \<open>k * mps\<close> below the size.\<close>

lemma slice_loop_step:
  assumes m: "0 < mps" and k: "k * unat mps < unat sz"
  shows "slice_loop mps path sz (of_nat (k * unat mps)) parts =
         slice_loop mps path sz (of_nat (min (Suc k * unat mps) (unat sz)))
           (parts @ [slice_at mps path sz k])"
proof -
  define off :: u64 where "off = of_nat (k * unat mps)"
  define n :: nat where "n = min (unat mps) (unat sz - k * unat mps)"
  define off' :: u64 where "off' = of_nat (min (Suc k * unat mps) (unat sz))"
  have off: "unat off = k * unat mps"
    unfolding off_def using k by (meson le_unat_uoi less_imp_le_nat)
  have lt: "off < sz" using k off by (simp add: word_less_nat_alt)
  have sub: "unat (sz - off) = unat sz - k * unat mps"
    using lt off by (simp add: unat_sub word_le_nat_alt word_less_nat_alt)
  have n: "(if mps < sz - off then mps else sz - off) = of_nat n"
  proof (cases "mps < sz - off")
    case True
    then have "unat mps < unat sz - k * unat mps" using sub by (simp add: word_less_nat_alt)
    then have "n = unat mps" by (simp add: n_def)
    then show ?thesis using True by simp
  next
    case False
    then have "unat sz - k * unat mps \<le> unat mps" using sub by (simp add: word_less_nat_alt)
    then have "n = unat (sz - off)" using sub by (simp add: n_def)
    then show ?thesis using False by simp
  qed
  have next_off: "off + of_nat n = off'"
  proof -
    have "k * unat mps + n = min (Suc k * unat mps) (unat sz)"
      using k by (auto simp: min_def n_def)
    then show ?thesis unfolding off_def off'_def by (metis of_nat_add)
  qed
  have at: "slice_at mps path sz k =
     \<lparr>Path = path, FileSize = sz, Offset = off, Size = of_nat n, ActualSize = of_nat n\<rparr>"
    unfolding slice_at_def Let_def off_def n_def ..
  have "slice_loop mps path sz off parts =
        slice_loop mps path sz off' (parts @ [slice_at mps path sz k])"
    by (subst slice_loop.simps) (simp only: lt n next_off at Let_def if_True)
  then show ?thesis unfolding off_def off'_def .
qed

lemma slice_loop_done [simp]: "slice_loop mps path sz sz parts = Some parts"
  by (subst slice_loop.simps) simp

lemma slice_loop_from:
  assumes m: "0 < mps"
  shows "slice_loop mps path sz (of_nat (min (k * unat mps) (unat sz))) parts =
         Some (parts @ map (slice_at mps path sz) [k..<slice_count mps sz])"
proof (induction "slice_count mps sz - k" arbitrary: k parts)
  case 0
  then have "\<not> k < slice_count mps sz" by simp
  then have "unat sz \<le> k * unat mps" using m by (simp add: slice_count_less word_less_nat_alt)
  then show ?case using 0 by (simp add: min_def)
next
  case (Suc d)
  then have lt: "k < slice_count mps sz" by simp
  then have k: "k * unat mps < unat sz" using m by (simp add: slice_count_less word_less_nat_alt)
  have d: "d = slice_count mps sz - Suc k" using Suc.hyps(2) by simp
  have "slice_loop mps path sz (of_nat (min (k * unat mps) (unat sz))) parts =
        slice_loop mps path sz (of_nat (k * unat mps)) parts"
    using k by (simp add: min_def)
  also have "\<dots> = slice_loop mps path sz (of_nat (min (Suc k * unat mps) (unat sz)))
           (parts @ [slice_at mps path sz k])"
    by (rule slice_loop_step [OF m k])
  also have "\<dots> = Some ((parts @ [slice_at mps path sz k]) @
                     map (slice_at mps path sz) [Suc k..<slice_count mps sz])"
    by (rule Suc.hyps(1) [OF d])
  also have "\<dots> = Some (parts @ map (slice_at mps path sz) [k..<slice_count mps sz])"
    using lt by (simp add: upt_conv_Cons)
  finally show ?case .
qed

text \<open>With a positive maximum part size the inner loop returns, with the spec's slices.\<close>

lemma slice_loop_eq:
  "0 < mps \<Longrightarrow> slice_loop mps path sz 0 parts =
     Some (parts @ map (slice_at mps path sz) [0..<slice_count mps sz])"
  using slice_loop_from [of mps path sz 0 parts] by simp

section \<open>Properties of the listing\<close>

lemma ListParts_loop_eq:
  assumes "0 < mps"
  shows "\<forall>f\<in>set names. prefix dir f \<and> os_Stat st f = Inr (sz f) \<Longrightarrow>
    ListParts_loop mps st dir names parts =
      Some (Inr (parts @ concat (map (\<lambda>f. file_parts mps (drop (length dir) f) (sz f)) names)))"
  using assms
  by (induction names arbitrary: parts) (simp_all add: slice_loop_eq file_parts_def Let_def)

lemma below_prefix: "below d name \<Longrightarrow> prefix (d @ ''/'') name"
  by (simp add: below_def)

lemma os_Stat_file:
  "distinct (map fst (files st)) \<Longrightarrow> (name, bs) \<in> set (files st) \<Longrightarrow> \<not> fails st SysStat name \<Longrightarrow>
   os_Stat st name = Inr (of_nat (length bs))"
  by (simp add: os_Stat_def)

lemma concat_map_keys:
  assumes "distinct (map fst al)"
  shows "map (\<lambda>k. f k (the (map_of al k))) (filter P (map fst al)) =
         map (\<lambda>e. f (fst e) (snd e)) (filter (\<lambda>e. P (fst e)) al)"
proof -
  have "\<And>e. e \<in> set al \<Longrightarrow> the (map_of al (fst e)) = snd e"
    using assms by (metis map_of_eq_Some_iff option.sel prod.collapse)
  then show ?thesis by (induction al) (auto simp: filter_map comp_def)
qed

lemma ListParts_eq:
  assumes mps: "0 < mps"
    and dist: "distinct (map fst (files st))"
    and dir: "os_Stat st (Dir fs) = Inr x"
    and walk: "\<not> fails st SysWalk (Dir fs)"
    and stat: "\<forall>e\<in>set (listed fs st). \<not> fails st SysStat (fst e)"
  shows "ListParts mps fs st =
     Some (Inr (concat (map (\<lambda>e. file_parts mps (rel_path fs (fst e)) (of_nat (length (snd e))))
                          (listed fs st))))"
proof -
  let ?names = "filter (below (Dir fs)) (map fst (files st))"
  let ?sz = "\<lambda>f. of_nat (length (the (map_of (files st) f))) :: u64"
  have 1: "\<forall>f\<in>set ?names. prefix (Dir fs @ ''/'') f \<and> os_Stat st f = Inr (?sz f)"
  proof
    fix f assume f: "f \<in> set ?names"
    then obtain bs :: "byte list" where bs: "(f, bs) \<in> set (files st)" by auto
    then have "(f, bs) \<in> set (listed fs st)" using f by (simp add: listed_def)
    then have "\<not> fails st SysStat f" using stat by auto
    moreover have "map_of (files st) f = Some bs" using dist bs by simp
    ultimately show "prefix (Dir fs @ ''/'') f \<and> os_Stat st f = Inr (?sz f)"
      using f by (simp add: os_Stat_def below_def)
  qed
  have "ListParts mps fs st = ListParts_loop mps st (Dir fs @ ''/'') ?names []"
    using dir walk by (simp add: ListParts_def AppendFiles_def)
  also have "\<dots> = Some (Inr ([] @ concat (map (\<lambda>f. file_parts mps (drop (length (Dir fs @ ''/'')) f) (?sz f)) ?names)))"
    by (rule ListParts_loop_eq [OF mps 1])
  also have "map (\<lambda>f. file_parts mps (drop (length (Dir fs @ ''/'')) f) (?sz f)) ?names =
     map (\<lambda>e. file_parts mps (rel_path fs (fst e)) (of_nat (length (snd e)))) (listed fs st)"
    unfolding listed_def rel_path_def
    using concat_map_keys [OF dist, of "\<lambda>k v. file_parts mps (drop (length (Dir fs @ ''/'')) k) (of_nat (length v))" "below (Dir fs)"]
    by simp
  finally show ?thesis by simp
qed

lemma ListParts_missing:
  "os_Stat st (Dir fs) = Inl ENOENT \<Longrightarrow> ListParts mps fs st = Some (Inr [])"
  by (simp add: ListParts_def)


lemma word_lt_succ: "(mps::u64) + 1 \<noteq> 0 \<Longrightarrow> mps < mps + 1"
  by (metis add.commute add.right_inverse inc_less_eq_iff word_le_less_eq)

lemma slice_loop_exact:
  assumes "0 < mps"
  shows "slice_loop mps path mps 0 [] =
     Some [\<lparr>Path = path, FileSize = mps, Offset = 0, Size = mps, ActualSize = mps\<rparr>]"
  using assms by (subst slice_loop.simps) simp

lemma slice_loop_succ:
  assumes "0 < mps" and "mps + 1 \<noteq> 0"
  shows "slice_loop mps path (mps + 1) 0 [] =
     Some [\<lparr>Path = path, FileSize = mps + 1, Offset = 0, Size = mps, ActualSize = mps\<rparr>,
           \<lparr>Path = path, FileSize = mps + 1, Offset = mps, Size = 1, ActualSize = 1\<rparr>]"
proof -
  have lt: "mps < mps + 1" using assms(2) by (rule word_lt_succ)
  have pos: "0 < mps + 1" using assms(2) by (simp add: word_greater_zero_iff)
  have ne: "mps \<noteq> 0" using assms(1) by auto
  have one: "\<not> mps < 1" using assms(1) by simp
  show ?thesis
    apply (subst slice_loop.simps)
    apply (simp add: lt pos Let_def)
    apply (subst slice_loop.simps)
    apply (simp add: lt one ne Let_def)
    done
qed


lemma ListParts_loop_total:
  "0 < mps \<Longrightarrow> \<exists>r. ListParts_loop mps st dir names parts = Some r"
  by (induction names arbitrary: parts) (auto simp: slice_loop_eq Let_def split: sum.splits)

lemma ListParts_total: "0 < mps \<Longrightarrow> \<exists>r. ListParts mps fs st = Some r"
  by (auto simp: ListParts_def ListParts_loop_total split: sum.splits)

lemma slice_at_word:
  assumes m: "0 < mps" and i: "i < slice_count mps sz"
  shows "slice_at mps path sz i =
     \<lparr>Path = path, FileSize = sz, Offset = of_nat i * mps,
      Size = (if Suc i < slice_count mps sz then mps else sz - of_nat i * mps),
      ActualSize = (if Suc i < slice_count mps sz then mps else sz - of_nat i * mps)\<rparr>"
proof -
  have m': "0 < unat mps" using m by (simp add: word_less_nat_alt)
  have lt: "i * unat mps < unat sz" using i m' by (simp add: slice_count_less)
  have off: "(of_nat (i * unat mps) :: u64) = of_nat i * mps" by simp
  have n: "(of_nat (min (unat mps) (unat sz - i * unat mps)) :: u64) =
       (if Suc i < slice_count mps sz then mps else sz - of_nat i * mps)"
  proof (cases "Suc i < slice_count mps sz")
    case True
    then have "Suc i * unat mps < unat sz" using m' by (simp add: slice_count_less)
    then have "min (unat mps) (unat sz - i * unat mps) = unat mps" by simp
    then show ?thesis using True by simp
  next
    case False
    then have "unat sz \<le> Suc i * unat mps" using m' by (simp add: slice_count_less)
    then have "min (unat mps) (unat sz - i * unat mps) = unat sz - i * unat mps" by simp
    moreover have "(of_nat (unat sz - i * unat mps) :: u64) = sz - of_nat i * mps"
      using lt by (simp add: of_nat_diff)
    ultimately show ?thesis using False by simp
  qed
  show ?thesis unfolding slice_at_def Let_def off n ..
qed

text \<open>
  Claim C4 (enumeration). When the directory does not exist \<^verbatim>\<open>FS.ListParts\<close> returns the
  empty list and no error. With a positive maximum part size it always returns; for an
  existing directory whose walk and stats succeed it returns, file by file, the parts of
  every regular file below the directory: one empty part for a file of length zero, and for
  a file of a positive length \<open>sz\<close> the consecutive parts of the maximum size with the
  remainder as the last part, each with the file size \<open>sz\<close> and the actual size equal to
  the size. A file of exactly the maximum part size has one part; a file one byte longer
  has two, the second of size 1.
\<close>

theorem ListParts_enumeration:
  "(os_Stat st (Dir fs) = Inl ENOENT \<longrightarrow> ListParts mps fs st = Some (Inr []))
   \<and> (0 < mps \<longrightarrow> (\<exists>r. ListParts mps fs st = Some r))
   \<and> (0 < mps \<and> distinct (map fst (files st)) \<and> (\<exists>x. os_Stat st (Dir fs) = Inr x)
        \<and> \<not> fails st SysWalk (Dir fs) \<and> (\<forall>e\<in>set (listed fs st). \<not> fails st SysStat (fst e))
      \<longrightarrow> ListParts mps fs st =
            Some (Inr (concat (map (\<lambda>e. file_parts mps (rel_path fs (fst e))
                                          (of_nat (length (snd e)))) (listed fs st)))))
   \<and> file_parts mps path 0 = [\<lparr>Path = path, FileSize = 0, Offset = 0, Size = 0, ActualSize = 0\<rparr>]
   \<and> (0 < mps \<and> 0 < sz \<longrightarrow>
        length (file_parts mps path sz) = slice_count mps sz
        \<and> (\<forall>i < slice_count mps sz. file_parts mps path sz ! i =
              \<lparr>Path = path, FileSize = sz, Offset = of_nat i * mps,
               Size = (if Suc i < slice_count mps sz then mps else sz - of_nat i * mps),
               ActualSize = (if Suc i < slice_count mps sz then mps else sz - of_nat i * mps)\<rparr>))
   \<and> (0 < mps \<longrightarrow> slice_loop mps path mps 0 [] =
        Some [\<lparr>Path = path, FileSize = mps, Offset = 0, Size = mps, ActualSize = mps\<rparr>])
   \<and> (0 < mps \<and> mps + 1 \<noteq> 0 \<longrightarrow> slice_loop mps path (mps + 1) 0 [] =
        Some [\<lparr>Path = path, FileSize = mps + 1, Offset = 0, Size = mps, ActualSize = mps\<rparr>,
              \<lparr>Path = path, FileSize = mps + 1, Offset = mps, Size = 1, ActualSize = 1\<rparr>])"
proof -
  have 1: "os_Stat st (Dir fs) = Inl ENOENT \<longrightarrow> ListParts mps fs st = Some (Inr [])"
    by (simp add: ListParts_missing)
  have 2: "0 < mps \<longrightarrow> (\<exists>r. ListParts mps fs st = Some r)"
    by (simp add: ListParts_total)
  have 3: "0 < mps \<and> distinct (map fst (files st)) \<and> (\<exists>x. os_Stat st (Dir fs) = Inr x)
        \<and> \<not> fails st SysWalk (Dir fs) \<and> (\<forall>e\<in>set (listed fs st). \<not> fails st SysStat (fst e))
      \<longrightarrow> ListParts mps fs st =
            Some (Inr (concat (map (\<lambda>e. file_parts mps (rel_path fs (fst e))
                                          (of_nat (length (snd e)))) (listed fs st))))"
    using ListParts_eq by blast
  have 4: "file_parts mps path 0 =
      [\<lparr>Path = path, FileSize = 0, Offset = 0, Size = 0, ActualSize = 0\<rparr>]"
    by (simp add: file_parts_def)
  have 5: "0 < mps \<and> 0 < sz \<longrightarrow>
        length (file_parts mps path sz) = slice_count mps sz
        \<and> (\<forall>i < slice_count mps sz. file_parts mps path sz ! i =
              \<lparr>Path = path, FileSize = sz, Offset = of_nat i * mps,
               Size = (if Suc i < slice_count mps sz then mps else sz - of_nat i * mps),
               ActualSize = (if Suc i < slice_count mps sz then mps else sz - of_nat i * mps)\<rparr>)"
    using slice_at_word by (auto simp: file_parts_def)
  have 6: "0 < mps \<longrightarrow> slice_loop mps path mps 0 [] =
        Some [\<lparr>Path = path, FileSize = mps, Offset = 0, Size = mps, ActualSize = mps\<rparr>]"
    by (simp add: slice_loop_exact)
  have 7: "0 < mps \<and> mps + 1 \<noteq> 0 \<longrightarrow> slice_loop mps path (mps + 1) 0 [] =
        Some [\<lparr>Path = path, FileSize = mps + 1, Offset = 0, Size = mps, ActualSize = mps\<rparr>,
              \<lparr>Path = path, FileSize = mps + 1, Offset = mps, Size = 1, ActualSize = 1\<rparr>]"
    by (simp add: slice_loop_succ)
  from 1 2 3 4 5 6 7 show ?thesis by (intro conjI)
qed

theorem ListParts_enumeration_witness:
  "ListParts 4 \<lparr>Dir = ''d''\<rparr>
     \<lparr>dirs = [''d''], files = [(''d/a'', [1, 2, 3, 4, 5]), (''d/sub/b'', []), (''e/c'', [7])],
      broken = []\<rparr>
   = Some (Inr [\<lparr>Path = ''a'', FileSize = 5, Offset = 0, Size = 4, ActualSize = 4\<rparr>,
                \<lparr>Path = ''a'', FileSize = 5, Offset = 4, Size = 1, ActualSize = 1\<rparr>,
                \<lparr>Path = ''sub/b'', FileSize = 0, Offset = 0, Size = 0, ActualSize = 0\<rparr>])"
proof -
  let ?st = "\<lparr>dirs = [''d''],
              files = [(''d/a'', [1, 2, 3, 4, 5 :: byte]), (''d/sub/b'', []), (''e/c'', [7])],
              broken = []\<rparr>"
  let ?fs = "\<lparr>Dir = ''d''\<rparr>"
  have h: "0 < (4 :: u64) \<and> distinct (map fst (files ?st)) \<and> (\<exists>x. os_Stat ?st (Dir ?fs) = Inr x)
        \<and> \<not> fails ?st SysWalk (Dir ?fs) \<and> (\<forall>e\<in>set (listed ?fs ?st). \<not> fails ?st SysStat (fst e))"
    by (simp add: os_Stat_def fails_def dir_exists_def below_def listed_def)
  have c: "concat (map (\<lambda>e. file_parts 4 (rel_path ?fs (fst e)) (of_nat (length (snd e))))
             (listed ?fs ?st))
       = [\<lparr>Path = ''a'', FileSize = 5, Offset = 0, Size = 4, ActualSize = 4\<rparr>,
          \<lparr>Path = ''a'', FileSize = 5, Offset = 4, Size = 1, ActualSize = 1\<rparr>,
          \<lparr>Path = ''sub/b'', FileSize = 0, Offset = 0, Size = 0, ActualSize = 0\<rparr>]"
    by code_simp
  from ListParts_enumeration [of ?st ?fs 4 "''a''" 5] h
  have "ListParts 4 ?fs ?st =
      Some (Inr (concat (map (\<lambda>e. file_parts 4 (rel_path ?fs (fst e)) (of_nat (length (snd e))))
             (listed ?fs ?st))))"
    by blast
  then show ?thesis unfolding c .
qed

section \<open>Properties of the deletion of one path\<close>

lemma map_of_delete_same [simp]: "map_of (AList.delete k al) k = None"
  by (simp add: delete_conv')

text \<open>
  Claim C8 (deletion of one path). \<^verbatim>\<open>FS.DeletePath\<close> on a name that holds a regular
  file, when the system calls do not fail, removes that file alone and returns the length
  it had. When nothing exists at the name it returns size 0, no error, and leaves the
  state as it is. No error it returns reports a missing file.
\<close>

theorem DeletePath_spec:
  "(map_of (files st) (fs_path fs path) = Some bs
      \<and> \<not> fails st SysOpen (fs_path fs path) \<and> \<not> fails st SysFstat (fs_path fs path)
      \<and> \<not> fails st SysRemove (fs_path fs path)
     \<longrightarrow> (\<exists>st'. DeletePath fs path st = (Inr (of_nat (length bs)), st')
            \<and> map_of (files st') (fs_path fs path) = None
            \<and> (\<forall>name. name \<noteq> fs_path fs path \<longrightarrow> map_of (files st') name = map_of (files st) name)
            \<and> dirs st' = dirs st \<and> broken st' = broken st))
   \<and> (map_of (files st) (fs_path fs path) = None \<and> \<not> dir_exists st (fs_path fs path)
      \<and> \<not> fails st SysOpen (fs_path fs path)
     \<longrightarrow> DeletePath fs path st = (Inr 0, st))
   \<and> (\<forall>e st'. DeletePath fs path st = (Inl e, st') \<longrightarrow>
         e \<noteq> CannotOpen path (fs_path fs path) ENOENT
         \<and> e \<noteq> CannotStatOpened path (fs_path fs path) ENOENT
         \<and> e \<noteq> CannotRemove (fs_path fs path) ENOENT)"
proof -
  have 1: "map_of (files st) (fs_path fs path) = Some bs
      \<and> \<not> fails st SysOpen (fs_path fs path) \<and> \<not> fails st SysFstat (fs_path fs path)
      \<and> \<not> fails st SysRemove (fs_path fs path)
     \<longrightarrow> (\<exists>st'. DeletePath fs path st = (Inr (of_nat (length bs)), st')
            \<and> map_of (files st') (fs_path fs path) = None
            \<and> (\<forall>name. name \<noteq> fs_path fs path \<longrightarrow> map_of (files st') name = map_of (files st) name)
            \<and> dirs st' = dirs st \<and> broken st' = broken st)"
    by (simp add: DeletePath_def os_Open_def os_Fstat_def os_Remove_def)
  have 2: "map_of (files st) (fs_path fs path) = None \<and> \<not> dir_exists st (fs_path fs path)
      \<and> \<not> fails st SysOpen (fs_path fs path)
     \<longrightarrow> DeletePath fs path st = (Inr 0, st)"
    by (simp add: DeletePath_def os_Open_def)
  have 3: "\<forall>e st'. DeletePath fs path st = (Inl e, st') \<longrightarrow>
         e \<noteq> CannotOpen path (fs_path fs path) ENOENT
         \<and> e \<noteq> CannotStatOpened path (fs_path fs path) ENOENT
         \<and> e \<noteq> CannotRemove (fs_path fs path) ENOENT"
    by (auto simp: DeletePath_def os_Open_def os_Fstat_def os_Remove_def dir_exists_def Let_def
        split: sum.splits if_splits option.splits)
  from 1 2 3 show ?thesis by (intro conjI)
qed

theorem DeletePath_spec_witness:
  "DeletePath \<lparr>Dir = ''d''\<rparr> ''a''
      \<lparr>dirs = [''d''], files = [(''d/a'', [1, 2, 3]), (''d/b'', [4])], broken = []\<rparr>
    = (Inr 3, \<lparr>dirs = [''d''], files = [(''d/b'', [4])], broken = []\<rparr>)
   \<and> DeletePath \<lparr>Dir = ''d''\<rparr> ''c''
      \<lparr>dirs = [''d''], files = [(''d/a'', [1, 2, 3]), (''d/b'', [4])], broken = []\<rparr>
    = (Inr 0, \<lparr>dirs = [''d''], files = [(''d/a'', [1, 2, 3]), (''d/b'', [4])], broken = []\<rparr>)"
  using DeletePath_spec [of "\<lparr>dirs = [''d''], files = [(''d/a'', [1, 2, 3]), (''d/b'', [4])], broken = []\<rparr>"
      "\<lparr>Dir = ''d''\<rparr>" "''c''" "[]"]
  by (simp add: DeletePath_def fs_path_def os_Open_def os_Fstat_def os_Remove_def fails_def
      dir_exists_def below_def AList.delete_eq)

section \<open>Properties of the progress counter\<close>

text \<open>A sequence of writes through the \<^verbatim>\<open>statWriter\<close>, as \<^verbatim>\<open>io.Copy\<close> makes them.\<close>

fun stat_writes ::
  "(byte list \<Rightarrow> 'w \<Rightarrow> (int \<times> 'e option) \<times> 'w) \<Rightarrow> byte list list \<Rightarrow> 'w \<times> u64 \<Rightarrow> 'w \<times> u64" where
  "stat_writes wr [] s = s"
| "stat_writes wr (p # ps) s = stat_writes wr ps (snd (statWriter_Write wr p s))"

lemma statWriter_Write_counter:
  "snd (snd (statWriter_Write wr p s)) = snd s + word_of_int (fst (fst (wr p (fst s))))"
  by (simp add: statWriter_Write_def Let_def)

lemma unat_add_int:
  fixes c :: u64
  assumes "0 \<le> n" and "unat c + nat n < 2 ^ 64"
  shows "unat (c + word_of_int n) = unat c + nat n"
proof -
  have "word_of_int n = (of_nat (nat n) :: u64)" using assms(1) by simp
  moreover have "unat (of_nat (nat n) :: u64) = nat n"
    using assms(2) by (simp add: unat_of_nat)
  ultimately show ?thesis
    using assms(2) by (simp add: unat_add_lem [THEN iffD1])
qed

lemma stat_writes_total:
  assumes ok: "\<forall>p w. fst (wr p w) = (int (length p), None)"
  shows "unat (snd s) + sum_list (map length ps) < 2 ^ 64 \<Longrightarrow>
     unat (snd (stat_writes wr ps s)) = unat (snd s) + sum_list (map length ps)"
proof (induction ps arbitrary: s)
  case Nil
  then show ?case by simp
next
  case (Cons p ps)
  let ?s' = "snd (statWriter_Write wr p s)"
  have "snd ?s' = snd s + word_of_int (int (length p))"
    using ok by (simp add: statWriter_Write_counter)
  moreover have "unat (snd s) + nat (int (length p)) < 2 ^ 64" using Cons.prems by simp
  ultimately have step: "unat (snd ?s') = unat (snd s) + length p"
    using unat_add_int [of "int (length p)" "snd s"] by simp
  then have "unat (snd ?s') + sum_list (map length ps) < 2 ^ 64" using Cons.prems by simp
  from Cons.IH [OF this] step show ?case by simp
qed

text \<open>
  Claim C9 (progress counter). A call of \<^verbatim>\<open>statWriter.Write\<close> returns what the wrapped
  writer returns and adds the number of bytes that writer reported to the counter, in
  64-bit arithmetic. When the number is not negative and the sum stays below \<open>2 ^ 64\<close>
  the counter grows by exactly that number, so it does not decrease. When every write
  reports all its bytes and no error, the counter, started at zero, is the total number
  of bytes streamed.
\<close>

theorem statWriter_counter:
  "snd (snd (statWriter_Write wr p (w, c))) = c + word_of_int (fst (fst (wr p w)))
   \<and> fst (statWriter_Write wr p (w, c)) = fst (wr p w)
   \<and> fst (snd (statWriter_Write wr p (w, c))) = snd (wr p w)
   \<and> (0 \<le> fst (fst (wr p w)) \<and> unat c + nat (fst (fst (wr p w))) < 2 ^ 64 \<longrightarrow>
        unat (snd (snd (statWriter_Write wr p (w, c)))) = unat c + nat (fst (fst (wr p w)))
        \<and> c \<le> snd (snd (statWriter_Write wr p (w, c))))
   \<and> ((\<forall>p w. fst (wr p w) = (int (length p), None)) \<and> sum_list (map length ps) < 2 ^ 64 \<longrightarrow>
        unat (snd (stat_writes wr ps (w, 0))) = sum_list (map length ps))"
proof -
  let ?n = "fst (fst (wr p w))"
  have 1: "snd (snd (statWriter_Write wr p (w, c))) = c + word_of_int ?n"
    by (simp add: statWriter_Write_counter)
  have 2: "fst (statWriter_Write wr p (w, c)) = fst (wr p w)"
    by (simp add: statWriter_Write_def Let_def)
  have 3: "fst (snd (statWriter_Write wr p (w, c))) = snd (wr p w)"
    by (simp add: statWriter_Write_def Let_def)
  have 4: "0 \<le> ?n \<and> unat c + nat ?n < 2 ^ 64 \<longrightarrow>
        unat (snd (snd (statWriter_Write wr p (w, c)))) = unat c + nat ?n
        \<and> c \<le> snd (snd (statWriter_Write wr p (w, c)))"
    using unat_add_int [of ?n c] by (auto simp: 1 word_le_nat_alt)
  have 5: "(\<forall>p w. fst (wr p w) = (int (length p), None)) \<and> sum_list (map length ps) < 2 ^ 64 \<longrightarrow>
        unat (snd (stat_writes wr ps (w, 0))) = sum_list (map length ps)"
    using stat_writes_total [of wr "(w, 0)" ps] by simp
  from 1 2 3 4 5 show ?thesis by (intro conjI)
qed

theorem statWriter_counter_witness:
  "snd (snd (statWriter_Write (\<lambda>p (w::nat). ((int (length p), None :: unit option), w + length p))
        [1, 2, 3] (0, 5))) = 8
   \<and> unat (snd (stat_writes (\<lambda>p (w::nat). ((int (length p), None :: unit option), w + length p))
        [[1, 2, 3], [4]] (0, 0))) = 4"
  using statWriter_counter [of "\<lambda>p (w::nat). ((int (length p), None :: unit option), w + length p)"
      "[1, 2, 3]" 0 5 "[[1, 2, 3], [4]]"]
  by simp

section \<open>Properties of the delete phase\<close>

text \<open>The length of the file at a name, zero when there is no file.\<close>

definition file_len :: "os_state \<Rightarrow> string \<Rightarrow> u64" where
  "file_len st name = (case map_of (files st) name of Some bs \<Rightarrow> of_nat (length bs) | None \<Rightarrow> 0)"

lemma fs_path_inj [simp]: "fs_path fs p = fs_path fs q \<longleftrightarrow> p = q"
  by (simp add: fs_path_def)

lemma DeletePath_Inr:
  assumes "DeletePath fs path st = (Inr sz, st')"
  shows "sz = file_len st (fs_path fs path)"
    and "map_of (files st') (fs_path fs path) = None"
    and "\<And>name. name \<noteq> fs_path fs path \<Longrightarrow> map_of (files st') name = map_of (files st) name"
    and "broken st' = broken st"
  using assms
  by (auto simp: DeletePath_def os_Open_def os_Fstat_def os_Remove_def file_len_def Let_def
      split: sum.splits if_splits option.splits)

lemma DeletePath_Inl: "DeletePath fs path st = (Inl e, st') \<Longrightarrow> st' = st"
  by (auto simp: DeletePath_def Let_def split: sum.splits if_splits)

lemma delete_loop_Inr:
  "distinct paths \<Longrightarrow> delete_loop fs paths n0 st = (Inr res, st') \<Longrightarrow>
     res = n0 + sum_list (map (\<lambda>p. file_len st (fs_path fs p)) paths)
     \<and> (\<forall>p\<in>set paths. map_of (files st') (fs_path fs p) = None)
     \<and> (\<forall>name. name \<notin> fs_path fs ` set paths \<longrightarrow> map_of (files st') name = map_of (files st) name)
     \<and> broken st' = broken st"
proof (induction paths arbitrary: n0 st)
  case Nil
  then show ?case by simp
next
  case (Cons path paths)
  from Cons.prems(2) obtain sz st1 where
    d: "DeletePath fs path st = (Inr sz, st1)" and
    l: "delete_loop fs paths (n0 + sz) st1 = (Inr res, st')"
    by (auto split: prod.splits sum.splits)
  note D = DeletePath_Inr [OF d]
  from Cons.prems(1) have dist: "distinct paths" and notin: "path \<notin> set paths" by simp_all
  note IH = Cons.IH [OF dist l]
  have same: "file_len st1 (fs_path fs q) = file_len st (fs_path fs q)" if "q \<in> set paths" for q
  proof -
    have "fs_path fs q \<noteq> fs_path fs path" using that notin by auto
    then show ?thesis using D(3) by (simp add: file_len_def)
  qed
  have "res = n0 + sz + sum_list (map (\<lambda>p. file_len st1 (fs_path fs p)) paths)"
    using IH by simp
  also have "map (\<lambda>p. file_len st1 (fs_path fs p)) paths = map (\<lambda>p. file_len st (fs_path fs p)) paths"
    using same by simp
  finally have 1: "res = n0 + sum_list (map (\<lambda>p. file_len st (fs_path fs p)) (path # paths))"
    using D(1) by (simp add: add.assoc)
  have 2: "\<forall>p\<in>set (path # paths). map_of (files st') (fs_path fs p) = None"
  proof
    fix p assume "p \<in> set (path # paths)"
    then consider "p = path" "p \<notin> set paths" | "p \<in> set paths" using notin by auto
    then show "map_of (files st') (fs_path fs p) = None"
    proof cases
      case 1
      then have "fs_path fs p \<notin> fs_path fs ` set paths" by auto
      then have "map_of (files st') (fs_path fs p) = map_of (files st1) (fs_path fs p)"
        using IH by blast
      then show ?thesis using D(2) 1 by simp
    next
      case 2
      then show ?thesis using IH by blast
    qed
  qed
  have 3: "\<forall>name. name \<notin> fs_path fs ` set (path # paths) \<longrightarrow>
             map_of (files st') name = map_of (files st) name"
    using IH D(3) by auto
  have 4: "broken st' = broken st" using IH D(4) by simp
  from 1 2 3 4 show ?case by blast
qed

lemma RemoveEmptyDirs_files:
  "RemoveEmptyDirs fs st = Inr st' \<Longrightarrow> files st' = files st \<and> broken st' = broken st"
  by (auto simp: RemoveEmptyDirs_def split: if_splits)

lemma sum_list_perm:
  fixes f :: "'a \<Rightarrow> u64"
  shows "mset xs = mset ys \<Longrightarrow> sum_list (map f xs) = sum_list (map f ys)"
  by (metis mset_map sum_mset_sum_list)

lemma delete_phase_Inr:
  assumes perm: "\<forall>ks. mset (ord ks) = mset ks"
    and run: "delete_phase ord fs toDelete st = (Inr dsize, st')"
  shows "dsize = sum_list (map (\<lambda>path. file_len st (fs_path fs path)) (remdups (map Path toDelete)))
    \<and> (\<forall>p\<in>set toDelete. map_of (files st') (fs_path fs (Path p)) = None)
    \<and> (\<forall>name. name \<notin> fs_path fs ` Path ` set toDelete \<longrightarrow>
           map_of (files st') name = map_of (files st) name)
    \<and> broken st' = broken st"
proof (cases "toDelete = []")
  case True
  then show ?thesis using run by (simp add: delete_phase_def)
next
  case False
  let ?ks = "remdups (map Path toDelete)"
  have m: "mset (ord ?ks) = mset ?ks" using perm by simp
  then have dist: "distinct (ord ?ks)" by (metis distinct_remdups mset_eq_imp_distinct_iff)
  have set: "set (ord ?ks) = Path ` set toDelete" using m by (metis mset_eq_setD set_map set_remdups)
  from False run obtain st1 where
    l: "delete_loop fs (ord ?ks) 0 st = (Inr dsize, st1)" and
    r: "RemoveEmptyDirs fs st1 = Inr st'"
    by (auto simp: delete_phase_def Let_def split: prod.splits sum.splits)
  note L = delete_loop_Inr [OF dist l]
  note R = RemoveEmptyDirs_files [OF r]
  have "dsize = sum_list (map (\<lambda>path. file_len st (fs_path fs path)) (ord ?ks))"
    using L by simp
  then have "dsize = sum_list (map (\<lambda>path. file_len st (fs_path fs path)) ?ks)"
    using sum_list_perm [OF m] by simp
  then show ?thesis using L R set by auto
qed

lemma fs_path_image [simp]: "fs_path fs p \<in> fs_path fs ` A \<longleftrightarrow> p \<in> A"
  by auto

text \<open>
  Claim C5 (delete phase). Let the paths to delete be iterated in any order. When the
  delete phase succeeds, the file at the path of every part of
  \<open>diff(dst_parts, src_parts)\<close> is gone; the delete size is the sum, over the distinct
  paths of these parts, of the lengths the files had, so that a path counts once however
  many of its parts differ; a path all of whose destination parts are present in the
  source is not among the deleted paths and its file is as it was; and so is every other
  file.
\<close>

theorem delete_phase_effect:
  assumes "\<forall>ks. mset (ord ks) = mset ks"
    and "delete_phase ord fs (PartsDifference dstParts srcParts) st = (Inr dsize, st')"
  shows "(\<forall>p\<in>set (PartsDifference dstParts srcParts).
            map_of (files st') (fs_path fs (Path p)) = None)
    \<and> dsize = sum_list (map (\<lambda>path. file_len st (fs_path fs path))
                (remdups (map Path (PartsDifference dstParts srcParts))))
    \<and> (\<forall>path. (\<forall>p\<in>set dstParts. Path p = path \<longrightarrow> present p srcParts) \<longrightarrow>
          map_of (files st') (fs_path fs path) = map_of (files st) (fs_path fs path)
          \<and> path \<notin> set (remdups (map Path (PartsDifference dstParts srcParts))))
    \<and> (\<forall>name. name \<notin> fs_path fs ` Path ` set (PartsDifference dstParts srcParts) \<longrightarrow>
          map_of (files st') name = map_of (files st) name)"
proof -
  have P: "dsize = sum_list (map (\<lambda>path. file_len st (fs_path fs path))
                (remdups (map Path (PartsDifference dstParts srcParts))))"
    "\<forall>p\<in>set (PartsDifference dstParts srcParts). map_of (files st') (fs_path fs (Path p)) = None"
    "\<forall>name. name \<notin> fs_path fs ` Path ` set (PartsDifference dstParts srcParts) \<longrightarrow>
           map_of (files st') name = map_of (files st) name"
    using delete_phase_Inr [OF assms] by blast+
  have "\<forall>path. (\<forall>p\<in>set dstParts. Path p = path \<longrightarrow> present p srcParts) \<longrightarrow>
          path \<notin> Path ` set (PartsDifference dstParts srcParts)"
    by (auto simp: PartsDifference_def)
  then have 3: "\<forall>path. (\<forall>p\<in>set dstParts. Path p = path \<longrightarrow> present p srcParts) \<longrightarrow>
          map_of (files st') (fs_path fs path) = map_of (files st) (fs_path fs path)
          \<and> path \<notin> set (remdups (map Path (PartsDifference dstParts srcParts)))"
    using P(3) by auto
  from P(1) P(2) P(3) 3 show ?thesis by blast
qed

theorem delete_phase_effect_witness:
  "(\<forall>ks :: string list. mset (id ks) = mset ks)
   \<and> delete_phase id \<lparr>Dir = ''d''\<rparr>
         (PartsDifference
            [\<lparr>Path = ''a.bin'', FileSize = 3, Offset = 0, Size = 3, ActualSize = 3\<rparr>,
             \<lparr>Path = ''stale.bin'', FileSize = 5, Offset = 0, Size = 4, ActualSize = 4\<rparr>,
             \<lparr>Path = ''stale.bin'', FileSize = 5, Offset = 4, Size = 1, ActualSize = 1\<rparr>]
            [\<lparr>Path = ''a.bin'', FileSize = 3, Offset = 0, Size = 3, ActualSize = 3\<rparr>])
         \<lparr>dirs = [''d''], files = [(''d/a.bin'', [1, 2, 3]), (''d/stale.bin'', [9, 9, 9, 9, 9])],
          broken = []\<rparr>
      = (Inr 5, \<lparr>dirs = [''d''], files = [(''d/a.bin'', [1, 2, 3])], broken = []\<rparr>)
   \<and> map_of (files \<lparr>dirs = [''d''], files = [(''d/a.bin'', [1, 2, 3 :: byte])], broken = []\<rparr>)
        (fs_path \<lparr>Dir = ''d''\<rparr> ''stale.bin'') = None"
proof -
  let ?dst = "[\<lparr>Path = ''a.bin'', FileSize = 3, Offset = 0, Size = 3, ActualSize = 3\<rparr>,
             \<lparr>Path = ''stale.bin'', FileSize = 5, Offset = 0, Size = 4, ActualSize = 4\<rparr>,
             \<lparr>Path = ''stale.bin'', FileSize = 5, Offset = 4, Size = 1, ActualSize = 1\<rparr>]"
  let ?src = "[\<lparr>Path = ''a.bin'', FileSize = 3, Offset = 0, Size = 3, ActualSize = 3\<rparr>]"
  let ?st = "\<lparr>dirs = [''d''], files = [(''d/a.bin'', [1, 2, 3 :: byte]), (''d/stale.bin'', [9, 9, 9, 9, 9])],
          broken = []\<rparr>"
  let ?st' = "\<lparr>dirs = [''d''], files = [(''d/a.bin'', [1, 2, 3 :: byte])], broken = []\<rparr>"
  have h1: "\<forall>ks :: string list. mset (id ks) = mset ks" by simp
  have h2: "delete_phase id \<lparr>Dir = ''d''\<rparr> (PartsDifference ?dst ?src) ?st = (Inr 5, ?st')"
    by code_simp
  have "?dst ! 1 \<in> set (PartsDifference ?dst ?src)" by code_simp
  with delete_phase_effect [OF h1 h2]
  have "map_of (files ?st') (fs_path \<lparr>Dir = ''d''\<rparr> (Path (?dst ! 1))) = None" by blast
  then show ?thesis using h1 h2 by simp
qed

section \<open>The listing is a tiling\<close>

lemma slice_at_fields [simp]:
  "Path (slice_at mps path sz i) = path"
  "FileSize (slice_at mps path sz i) = sz"
  "ActualSize (slice_at mps path sz i) = Size (slice_at mps path sz i)"
  by (simp_all add: slice_at_def Let_def)

lemma unat_slice_at:
  assumes m: "0 < mps" and i: "i < slice_count mps sz"
  shows "unat (Offset (slice_at mps path sz i)) = i * unat mps"
    and "unat (Size (slice_at mps path sz i)) = min (unat mps) (unat sz - i * unat mps)"
proof -
  have lt: "i * unat mps < unat sz" using i m by (simp add: slice_count_less word_less_nat_alt)
  have "unat (of_nat (i * unat mps) :: u64) = i * unat mps"
    using lt by (meson le_unat_uoi less_imp_le_nat)
  then show "unat (Offset (slice_at mps path sz i)) = i * unat mps"
    by (simp add: slice_at_def Let_def del: of_nat_mult)
  have "min (unat mps) (unat sz - i * unat mps) \<le> unat mps" by simp
  then have "unat (of_nat (min (unat mps) (unat sz - i * unat mps)) :: u64) =
        min (unat mps) (unat sz - i * unat mps)"
    by (rule le_unat_uoi)
  then show "unat (Size (slice_at mps path sz i)) = min (unat mps) (unat sz - i * unat mps)"
    by (simp add: slice_at_def Let_def del: of_nat_min)
qed

lemma sum_slice_sizes:
  assumes m: "0 < mps"
  shows "k \<le> slice_count mps sz \<Longrightarrow>
     sum_list (map (\<lambda>i. unat (Size (slice_at mps path sz i))) [0..<k]) = min (k * unat mps) (unat sz)"
proof (induction k)
  case 0
  then show ?case by simp
next
  case (Suc k)
  then have k: "k < slice_count mps sz" by simp
  then have lt: "k * unat mps < unat sz" using m by (simp add: slice_count_less word_less_nat_alt)
  have "sum_list (map (\<lambda>i. unat (Size (slice_at mps path sz i))) [0..<Suc k]) =
        min (k * unat mps) (unat sz) + unat (Size (slice_at mps path sz k))"
    using Suc by simp
  also have "\<dots> = k * unat mps + min (unat mps) (unat sz - k * unat mps)"
    using lt unat_slice_at(2) [OF m k] by simp
  also have "\<dots> = min (Suc k * unat mps) (unat sz)" using lt by (auto simp: min_def)
  finally show ?case .
qed

lemma slice_count_pos: "0 < mps \<Longrightarrow> sz \<noteq> 0 \<Longrightarrow> 0 < slice_count mps sz"
  by (simp add: slice_count_less word_less_nat_alt unat_gt_0)

lemma slice_count_cover:
  assumes "0 < mps" shows "unat sz \<le> slice_count mps sz * unat mps"
  using assms slice_count_less [of mps "slice_count mps sz" sz]
  by (simp add: word_less_nat_alt)

text \<open>The parts of one file: the facts that make them a tiling of the file.\<close>

lemma file_parts_tiling:
  fixes mps sz :: u64 and path :: string
  assumes m: "0 < mps"
  defines "ps \<equiv> file_parts mps path sz"
  shows "ps \<noteq> []"
    and "Offset (hd ps) = 0"
    and "sorted_wrt (<) (map Offset ps)"
    and "\<forall>i<length ps. unat (Offset (ps ! i)) = sum_list (map (\<lambda>p. unat (Size p)) (take i ps))"
    and "sum_list (map (\<lambda>p. unat (Size p)) ps) = unat sz"
    and "\<forall>p\<in>set ps. Path p = path \<and> FileSize p = sz \<and> Size p \<le> mps \<and> ActualSize p = Size p"
proof -
  let ?N = "slice_count mps sz"
  show "ps \<noteq> []" using slice_count_pos [OF m] by (auto simp: ps_def file_parts_def)
  show "Offset (hd ps) = 0"
    using slice_count_pos [OF m, of sz]
    by (auto simp: ps_def file_parts_def hd_map upt_conv_Cons slice_at_def Let_def)
  show "sorted_wrt (<) (map Offset ps)"
  proof (cases "sz = 0")
    case True
    then show ?thesis by (simp add: ps_def file_parts_def)
  next
    case False
    have "Offset (slice_at mps path sz i) < Offset (slice_at mps path sz j)"
      if "i < j" "j < ?N" for i j
    proof -
      have "i * unat mps < j * unat mps" using that m by (simp add: word_less_nat_alt)
      then show ?thesis
        using unat_slice_at(1) [OF m, of i sz path] unat_slice_at(1) [OF m, of j sz path] that
        by (simp add: word_less_nat_alt)
    qed
    then show ?thesis using False
      by (simp add: ps_def file_parts_def sorted_wrt_iff_nth_less)
  qed
  show "\<forall>i<length ps. unat (Offset (ps ! i)) = sum_list (map (\<lambda>p. unat (Size p)) (take i ps))"
  proof (cases "sz = 0")
    case True
    then show ?thesis by (simp add: ps_def file_parts_def)
  next
    case False
    have "unat (Offset (slice_at mps path sz i)) =
          sum_list (map (\<lambda>i. unat (Size (slice_at mps path sz i))) [0..<i])" if "i < ?N" for i
    proof -
      have "i * unat mps < unat sz" using that m by (simp add: slice_count_less word_less_nat_alt)
      then show ?thesis
        using unat_slice_at(1) [OF m that, of path] sum_slice_sizes [OF m, of i sz path] that
        by simp
    qed
    then show ?thesis using False
      by (simp add: ps_def file_parts_def take_map comp_def)
  qed
  show "sum_list (map (\<lambda>p. unat (Size p)) ps) = unat sz"
  proof (cases "sz = 0")
    case True
    then show ?thesis by (simp add: ps_def file_parts_def)
  next
    case False
    then show ?thesis
      using sum_slice_sizes [OF m, of ?N sz path] slice_count_cover [OF m, of sz]
      by (simp add: ps_def file_parts_def comp_def)
  qed
  show "\<forall>p\<in>set ps. Path p = path \<and> FileSize p = sz \<and> Size p \<le> mps \<and> ActualSize p = Size p"
  proof (cases "sz = 0")
    case True
    then show ?thesis by (simp add: ps_def file_parts_def)
  next
    case False
    have "Size (slice_at mps path sz i) \<le> mps" if "i < ?N" for i
      using unat_slice_at(2) [OF m that, of path] by (simp add: word_le_nat_alt)
    then show ?thesis using False by (auto simp: ps_def file_parts_def)
  qed
qed


lemma ListParts_loop_Inr:
  "0 < mps \<Longrightarrow> ListParts_loop mps st dir names parts = Some (Inr r) \<Longrightarrow>
     \<forall>f\<in>set names. \<exists>sz. os_Stat st f = Inr sz"
  by (induction names arbitrary: parts)
     (auto simp: slice_loop_eq Let_def split: sum.splits if_splits)

lemma listed_Nil: "os_Stat st (Dir fs) = Inl ENOENT \<Longrightarrow> listed fs st = []"
  by (auto simp: os_Stat_def dir_exists_def listed_def list_ex_iff filter_empty_conv
      split: if_splits option.splits)

lemma ListParts_Inr:
  assumes mps: "0 < mps"
    and dist: "distinct (map fst (files st))"
    and run: "ListParts mps fs st = Some (Inr parts)"
  shows "parts = concat (map (\<lambda>e. file_parts mps (rel_path fs (fst e)) (of_nat (length (snd e))))
                          (listed fs st))"
proof (cases "os_Stat st (Dir fs)")
  case (Inl e)
  then have "e = ENOENT" using run by (auto simp: ListParts_def split: if_splits)
  then show ?thesis using Inl run listed_Nil [of st fs] by (simp add: ListParts_def)
next
  case (Inr x)
  have walk: "\<not> fails st SysWalk (Dir fs)"
    using run Inr by (auto simp: ListParts_def AppendFiles_def split: if_splits)
  then have loop: "ListParts_loop mps st (Dir fs @ ''/'')
                    (filter (below (Dir fs)) (map fst (files st))) [] = Some (Inr parts)"
    using run Inr by (simp add: ListParts_def AppendFiles_def)
  have stat: "\<forall>e\<in>set (listed fs st). \<not> fails st SysStat (fst e)"
  proof
    fix e assume "e \<in> set (listed fs st)"
    then have "fst e \<in> set (filter (below (Dir fs)) (map fst (files st)))"
      by (auto simp: listed_def)
    with ListParts_loop_Inr [OF mps loop] obtain sz where "os_Stat st (fst e) = Inr sz" by blast
    then show "\<not> fails st SysStat (fst e)" by (auto simp: os_Stat_def split: if_splits)
  qed
  from ListParts_eq [OF mps dist Inr walk stat] run show ?thesis by simp
qed

lemma rel_path_inj:
  assumes "below (Dir fs) a" and "below (Dir fs) b" and "rel_path fs a = rel_path fs b"
  shows "a = b"
proof -
  from assms(1) obtain x where a: "a = (Dir fs @ ''/'') @ x" by (auto simp: below_def prefix_def)
  from assms(2) obtain y where b: "b = (Dir fs @ ''/'') @ y" by (auto simp: below_def prefix_def)
  from assms(3) show ?thesis unfolding a b rel_path_def by simp
qed

lemma distinct_rel_paths:
  assumes "distinct (map fst (files st))"
  shows "distinct (map (\<lambda>e. rel_path fs (fst e)) (listed fs st))"
proof -
  have d: "distinct (map fst (listed fs st))"
    using assms by (simp add: listed_def distinct_map_filter)
  have "inj_on (rel_path fs) (set (map fst (listed fs st)))"
    by (rule inj_onI) (auto simp: listed_def intro: rel_path_inj)
  with d have "distinct (map (rel_path fs) (map fst (listed fs st)))"
    by (subst distinct_map) blast
  then show ?thesis by (simp add: comp_def)
qed

lemma filter_concat_parts:
  assumes paths: "\<And>e p. e \<in> set es \<Longrightarrow> p \<in> set (fp e) \<Longrightarrow> Path p = key e"
  shows "distinct (map key es) \<Longrightarrow> e \<in> set es \<Longrightarrow>
         filter (\<lambda>p. Path p = key e) (concat (map fp es)) = fp e"
  using paths
proof (induction es)
  case Nil
  then show ?case by simp
next
  case (Cons a es)
  show ?case
  proof (cases "e = a")
    case True
    have "filter (\<lambda>p. Path p = key a) (fp a) = fp a" using Cons.prems(3) by (simp add: filter_id_conv)
    moreover have "filter (\<lambda>p. Path p = key a) (concat (map fp es)) = []"
    proof -
      have "key a \<notin> key ` set es" using Cons.prems(1) by simp
      then have "\<forall>x\<in>set es. \<forall>p\<in>set (fp x). Path p \<noteq> key a"
        using Cons.prems(3) by (metis image_eqI list.set_intros(2))
      then show ?thesis by (auto simp: filter_empty_conv)
    qed
    ultimately show ?thesis using True by simp
  next
    case False
    then have e: "e \<in> set es" using Cons.prems(2) by simp
    then have "key e \<noteq> key a" using Cons.prems(1) by (metis distinct.simps(2) image_eqI list.simps(9) set_map)
    moreover have "\<forall>p\<in>set (fp a). Path p = key a" using Cons.prems(3) by simp
    ultimately have "filter (\<lambda>p. Path p = key e) (fp a) = []"
      by (auto simp: filter_empty_conv)
    moreover have "filter (\<lambda>p. Path p = key e) (concat (map fp es)) = fp e"
      using Cons.IH Cons.prems e by simp
    ultimately show ?thesis by simp
  qed
qed


lemma validate_loop_append:
  "validate_loop s (xs @ ys) =
     (case validate_loop s xs of Inl e \<Rightarrow> Inl e | Inr s' \<Rightarrow> validate_loop s' ys)"
  by (induction xs arbitrary: s) (auto split: sum.splits)

lemma validate_step_new_path:
  "Path p \<noteq> v_path s \<Longrightarrow> v_offset s = FileSize (v_pOld s) \<Longrightarrow>
   validate_step s p = validate_step \<lparr>v_offset = 0, v_pOld = p, v_path = Path p\<rparr> p"
  by (simp add: validate_step_def)

lemma validate_slices_from:
  assumes m: "0 < mps"
  shows "v_path s = path \<Longrightarrow> v_offset s = of_nat (min (k * unat mps) (unat sz)) \<Longrightarrow>
     validate_loop s (map (slice_at mps path sz) [k..<slice_count mps sz]) = Inr (s\<lparr>v_offset := sz\<rparr>)"
proof (induction "slice_count mps sz - k" arbitrary: k s)
  case 0
  then have "\<not> k < slice_count mps sz" by simp
  then have "unat sz \<le> k * unat mps" using m by (simp add: slice_count_less word_less_nat_alt)
  then have "v_offset s = sz" using 0 by (simp add: min_def)
  then show ?case using 0 by simp
next
  case (Suc d)
  then have lt: "k < slice_count mps sz" by simp
  then have k: "k * unat mps < unat sz" using m by (simp add: slice_count_less word_less_nat_alt)
  have d: "d = slice_count mps sz - Suc k" using Suc.hyps(2) by simp
  define p where "p = slice_at mps path sz k"
  define n where "n = min (unat mps) (unat sz - k * unat mps)"
  have off: "Offset p = v_offset s"
    using k Suc.prems(2) by (simp add: p_def slice_at_def Let_def min_def)
  have sz: "Size p = of_nat n" by (simp add: p_def n_def slice_at_def Let_def del: of_nat_min)
  have "k * unat mps + n = min (Suc k * unat mps) (unat sz)"
    using k by (auto simp: min_def n_def)
  then have nxt: "v_offset s + Size p = of_nat (min (Suc k * unat mps) (unat sz))"
    unfolding sz using k Suc.prems(2) by (metis min.strict_order_iff of_nat_add)
  have step: "validate_step s p = Inr (s\<lparr>v_offset := v_offset s + Size p\<rparr>)"
    using Suc.prems(1) off by (simp add: validate_step_def p_def)
  have "validate_loop (s\<lparr>v_offset := v_offset s + Size p\<rparr>)
          (map (slice_at mps path sz) [Suc k..<slice_count mps sz]) =
        Inr (s\<lparr>v_offset := v_offset s + Size p\<rparr>\<lparr>v_offset := sz\<rparr>)"
    using Suc.hyps(1) [OF d, of "s\<lparr>v_offset := v_offset s + Size p\<rparr>"] Suc.prems(1) nxt by simp
  then show ?case using lt step by (simp add: upt_conv_Cons p_def)
qed

lemma validate_file:
  assumes m: "0 < mps" and new: "v_path s \<noteq> path" and closed: "v_offset s = FileSize (v_pOld s)"
  shows "validate_loop s (file_parts mps path sz) =
     Inr \<lparr>v_offset = sz, v_pOld = hd (file_parts mps path sz), v_path = path\<rparr>"
proof (cases "sz = 0")
  case True
  then show ?thesis using new closed by (simp add: file_parts_def validate_step_def)
next
  case False
  let ?p = "slice_at mps path sz 0"
  let ?s0 = "\<lparr>v_offset = 0, v_pOld = ?p, v_path = path\<rparr>"
  have N: "0 < slice_count mps sz" using slice_count_pos [OF m False] .
  then have fp: "file_parts mps path sz = ?p # map (slice_at mps path sz) [Suc 0..<slice_count mps sz]"
    using False by (simp add: file_parts_def upt_conv_Cons)
  have "validate_step s ?p = validate_step ?s0 ?p"
    using validate_step_new_path [of ?p s] new closed by simp
  then have "validate_loop s (file_parts mps path sz) = validate_loop ?s0 (file_parts mps path sz)"
    by (simp add: fp)
  also have "\<dots> = validate_loop ?s0 (map (slice_at mps path sz) [0..<slice_count mps sz])"
    using False by (simp add: file_parts_def)
  also have "\<dots> = Inr (?s0\<lparr>v_offset := sz\<rparr>)"
    using validate_slices_from [OF m, of ?s0 path 0 sz] by simp
  finally show ?thesis by (simp add: fp)
qed

lemma validate_files:
  assumes m: "0 < mps"
  shows "distinct (map key es) \<Longrightarrow> v_path s \<notin> key ` set es \<Longrightarrow> v_offset s = FileSize (v_pOld s) \<Longrightarrow>
     \<exists>s'. validate_loop s (concat (map (\<lambda>e. file_parts mps (key e) (len e)) es)) = Inr s'"
proof (induction es arbitrary: s)
  case Nil
  then show ?case by simp
next
  case (Cons e es)
  let ?s1 = "\<lparr>v_offset = len e, v_pOld = hd (file_parts mps (key e) (len e)), v_path = key e\<rparr>"
  have 1: "validate_loop s (file_parts mps (key e) (len e)) = Inr ?s1"
    using Cons.prems by (intro validate_file [OF m]) auto
  have "hd (file_parts mps (key e) (len e)) \<in> set (file_parts mps (key e) (len e))"
    using file_parts_tiling(1) [OF m] by simp
  then have "FileSize (hd (file_parts mps (key e) (len e))) = len e"
    using file_parts_tiling(6) [OF m] by blast
  then have "\<exists>s'. validate_loop ?s1 (concat (map (\<lambda>e. file_parts mps (key e) (len e)) es)) = Inr s'"
    using Cons.prems by (intro Cons.IH) auto
  then show ?case using 1 by (simp add: validate_loop_append)
qed

text \<open>Sorting a listing keeps the parts of each file together.\<close>

lemma file_parts_keys_sorted:
  assumes m: "0 < mps"
  shows "sorted_wrt (<) (map (\<lambda>p. (Path p, Offset p)) (file_parts mps path sz))"
proof -
  let ?ps = "file_parts mps path sz"
  have "sorted_wrt (\<lambda>p q. Offset p < Offset q) ?ps"
    using file_parts_tiling(3) [OF m, of path sz] by (simp add: sorted_wrt_map)
  moreover have "\<forall>p\<in>set ?ps. Path p = path" using file_parts_tiling(6) [OF m] by blast
  ultimately have "sorted_wrt (\<lambda>p q. (Path p, Offset p) < (Path q, Offset q)) ?ps"
    by (rule_tac sorted_wrt_mono_rel [where P = "\<lambda>p q. Offset p < Offset q"]) auto
  then show ?thesis by (simp add: sorted_wrt_map)
qed

lemma files_keys_sorted:
  assumes m: "0 < mps"
  shows "sorted_wrt (<) (map key es) \<Longrightarrow>
     sorted_wrt (<) (map (\<lambda>p. (Path p, Offset p))
        (concat (map (\<lambda>e. file_parts mps (key e) (len e)) es)))"
proof (induction es)
  case Nil
  then show ?case by simp
next
  case (Cons e es)
  have "(Path p, Offset p) < (Path q, Offset q)"
    if "p \<in> set (file_parts mps (key e) (len e))"
      "x \<in> set es" "q \<in> set (file_parts mps (key x) (len x))" for p q x
  proof -
    have "Path p = key e" "Path q = key x" using that file_parts_tiling(6) [OF m] by blast+
    moreover have "key e < key x" using Cons.prems that(2) by auto
    ultimately show ?thesis by simp
  qed
  then show ?case
    using Cons file_parts_keys_sorted [OF m, of "key e" "len e"]
    by (auto simp: sorted_wrt_append)
qed

lemma filter_key_single:
  "distinct (map f zs) \<Longrightarrow> x \<in> set zs \<Longrightarrow> filter (\<lambda>y. f x = f y) zs = [x]"
proof (induction zs)
  case Nil
  then show ?case by simp
next
  case (Cons z zs)
  show ?case
  proof (cases "x = z")
    case True
    then have "\<forall>y\<in>set zs. f x \<noteq> f y" using Cons.prems(1) by auto
    then show ?thesis using True by (simp add: filter_empty_conv)
  next
    case False
    then have "x \<in> set zs" using Cons.prems(2) by simp
    moreover from this have "f x \<noteq> f z"
      using Cons.prems(1) by (metis distinct.simps(2) image_eqI list.simps(9) set_map)
    ultimately show ?thesis using Cons by simp
  qed
qed


lemma mset_concat_map:
  "mset (concat (map fp es)) = sum_mset (image_mset (\<lambda>e. mset (fp e)) (mset es))"
  by (induction es) simp_all

lemma mset_concat_perm:
  "mset es' = mset es \<Longrightarrow> mset (concat (map fp es')) = mset (concat (map fp es))"
  by (simp add: mset_concat_map)

lemma SortParts_files:
  fixes key :: "'e \<Rightarrow> string"
  assumes m: "0 < mps" and dist: "distinct (map key es)"
  shows "SortParts (concat (map (\<lambda>e. file_parts mps (key e) (len e)) es)) =
         concat (map (\<lambda>e. file_parts mps (key e) (len e)) (sort_key key es))"
proof -
  define fp where "fp = (\<lambda>e. file_parts mps (key e) (len e))"
  define kf where "kf = (\<lambda>p :: Part. (Path p, Offset p))"
  define es' where "es' = sort_key key es"
  define xs where "xs = concat (map fp es)"
  define ys where "ys = concat (map fp es')"
  have ms: "mset es' = mset es" by (simp add: es'_def)
  have d': "distinct (map key es')"
    using dist unfolding es'_def by (simp add: distinct_map)
  have "sorted (map key es')" by (simp add: es'_def)
  with d' have s': "sorted_wrt (<) (map key es')"
    by (simp add: strict_sorted_iff)
  have sorted_ys: "sorted_wrt (<) (map kf ys)"
    unfolding ys_def fp_def kf_def by (rule files_keys_sorted [OF m s'])
  then have dy: "distinct (map kf ys)" and sy: "sorted (map kf ys)"
    by (simp_all add: strict_sorted_iff)
  have mm: "mset ys = mset xs"
    unfolding xs_def ys_def by (rule mset_concat_perm [OF ms])
  then have "mset (map kf ys) = mset (map kf xs)" by simp
  then have dx: "distinct (map kf xs)"
    using dy by (rule mset_eq_imp_distinct_iff [THEN iffD1])
  have "sort_key kf xs = ys"
  proof (rule properties_for_sort_key [OF mm _ sy])
    fix k assume k: "k \<in> set ys"
    have "set ys = set xs" using mm by (rule mset_eq_setD)
    with k have k': "k \<in> set xs" by simp
    show "filter (\<lambda>x. kf k = kf x) ys = filter (\<lambda>x. kf k = kf x) xs"
      by (simp only: filter_key_single [OF dy k] filter_key_single [OF dx k'])
  qed
  then show ?thesis unfolding SortParts_def xs_def ys_def fp_def kf_def es'_def .
qed


lemma rel_path_Nil:
  assumes "below (Dir fs) name" and "rel_path fs name = []"
  shows "name = Dir fs @ ''/''"
proof -
  from assms(1) obtain x where "name = (Dir fs @ ''/'') @ x" by (auto simp: below_def prefix_def)
  with assms(2) show ?thesis by (simp add: rel_path_def)
qed

text \<open>
  Claim C10 (the listing is a tiling). Take a state whose file names are distinct and in
  which no file is named by the directory and a slash alone, a positive maximum part size,
  and a listing that \<^verbatim>\<open>FS.ListParts\<close> returns. For every file below the directory, the
  parts of the listing with the file's path are not empty, start at offset 0 and have
  strictly increasing offsets; the offset of each is the sum of the sizes of the parts
  before it; the sizes sum to the length of the file; and every part carries the length of
  the file as file size, is no larger than the maximum part size and has its actual size
  equal to its size. Every part of the listing belongs to such a file. The validation of
  the restore engine accepts the listing, as it is and after sorting.
\<close>

theorem ListParts_tiling:
  assumes mps: "0 < mps"
    and dist: "distinct (map fst (files st))"
    and names: "Dir fs @ ''/'' \<notin> fst ` set (files st)"
    and run: "ListParts mps fs st = Some (Inr parts)"
  shows "(\<forall>e\<in>set (listed fs st).
            let ps = filter (\<lambda>p. Path p = rel_path fs (fst e)) parts in
              ps \<noteq> [] \<and> Offset (hd ps) = 0 \<and> sorted_wrt (<) (map Offset ps)
              \<and> (\<forall>i < length ps. unat (Offset (ps ! i)) =
                     sum_list (map (\<lambda>p. unat (Size p)) (take i ps)))
              \<and> sum_list (map (\<lambda>p. unat (Size p)) ps) = unat (of_nat (length (snd e)) :: u64)
              \<and> (length (snd e) < 2 ^ 64 \<longrightarrow>
                     sum_list (map (\<lambda>p. unat (Size p)) ps) = length (snd e))
              \<and> (\<forall>p\<in>set ps. FileSize p = of_nat (length (snd e)) \<and> Size p \<le> mps
                     \<and> ActualSize p = Size p))
       \<and> (\<forall>p\<in>set parts. \<exists>e\<in>set (listed fs st). Path p = rel_path fs (fst e))
       \<and> (\<exists>s. validate parts = Inr s)
       \<and> (\<exists>s. validate (SortParts parts) = Inr s)"
proof -
  define key where "key = (\<lambda>e :: string \<times> byte list. rel_path fs (fst e))"
  define len where "len = (\<lambda>e :: string \<times> byte list. of_nat (length (snd e)) :: u64)"
  define fp where "fp = (\<lambda>e. file_parts mps (key e) (len e))"
  define es where "es = listed fs st"
  have parts: "parts = concat (map fp es)"
    using ListParts_Inr [OF mps dist run] by (simp add: fp_def key_def len_def es_def)
  have dk: "distinct (map key es)"
    using distinct_rel_paths [OF dist, of fs] by (simp add: key_def es_def)
  have path: "Path p = key e" if "p \<in> set (fp e)" for e p
    using that file_parts_tiling(6) [OF mps, of "key e" "len e"] by (auto simp: fp_def)
  have 1: "\<forall>e\<in>set es.
            let ps = filter (\<lambda>p. Path p = key e) parts in
              ps \<noteq> [] \<and> Offset (hd ps) = 0 \<and> sorted_wrt (<) (map Offset ps)
              \<and> (\<forall>i < length ps. unat (Offset (ps ! i)) =
                     sum_list (map (\<lambda>p. unat (Size p)) (take i ps)))
              \<and> sum_list (map (\<lambda>p. unat (Size p)) ps) = unat (len e)
              \<and> (length (snd e) < 2 ^ 64 \<longrightarrow>
                     sum_list (map (\<lambda>p. unat (Size p)) ps) = length (snd e))
              \<and> (\<forall>p\<in>set ps. FileSize p = len e \<and> Size p \<le> mps \<and> ActualSize p = Size p)"
  proof
    fix e assume e: "e \<in> set es"
    have f: "filter (\<lambda>p. Path p = key e) parts = fp e"
      unfolding parts using path dk e by (intro filter_concat_parts) auto
    have u: "length (snd e) < 2 ^ 64 \<longrightarrow> unat (len e) = length (snd e)"
      by (simp add: len_def unat_of_nat)
    show "let ps = filter (\<lambda>p. Path p = key e) parts in
              ps \<noteq> [] \<and> Offset (hd ps) = 0 \<and> sorted_wrt (<) (map Offset ps)
              \<and> (\<forall>i < length ps. unat (Offset (ps ! i)) =
                     sum_list (map (\<lambda>p. unat (Size p)) (take i ps)))
              \<and> sum_list (map (\<lambda>p. unat (Size p)) ps) = unat (len e)
              \<and> (length (snd e) < 2 ^ 64 \<longrightarrow>
                     sum_list (map (\<lambda>p. unat (Size p)) ps) = length (snd e))
              \<and> (\<forall>p\<in>set ps. FileSize p = len e \<and> Size p \<le> mps \<and> ActualSize p = Size p)"
      unfolding Let_def f fp_def
      using file_parts_tiling [OF mps, of "key e" "len e"] u by simp
  qed
  have 2: "\<forall>p\<in>set parts. \<exists>e\<in>set es. Path p = key e"
    unfolding parts using path by auto
  have nil: "[] \<notin> key ` set es"
  proof
    assume "[] \<in> key ` set es"
    then obtain e where e: "e \<in> set es" "key e = []" by auto
    then have "below (Dir fs) (fst e)" by (simp add: es_def listed_def)
    with e(2) have "fst e = Dir fs @ ''/''" by (simp add: key_def rel_path_Nil)
    moreover have "e \<in> set (files st)" using e(1) by (simp add: es_def listed_def)
    ultimately show False using names by force
  qed
  have init: "v_offset v_init = FileSize (v_pOld v_init)" "v_path v_init = []"
    by (simp_all add: v_init_def zero_Part_def)
  have 3: "\<exists>s. validate parts = Inr s"
    unfolding validate_def parts fp_def
    using nil init by (intro validate_files [OF mps dk]) simp_all
  have dk': "distinct (map key (sort_key key es))" using dk by (simp add: distinct_map)
  have "\<exists>s. validate_loop v_init (concat (map (\<lambda>e. file_parts mps (key e) (len e)) (sort_key key es))) = Inr s"
    using nil init by (intro validate_files [OF mps dk']) simp_all
  then have 4: "\<exists>s. validate (SortParts parts) = Inr s"
    unfolding validate_def parts fp_def SortParts_files [OF mps dk] .
  from 1 2 3 4 show ?thesis
    unfolding key_def len_def es_def by blast
qed

theorem ListParts_tiling_witness:
  "(\<exists>s. validate (SortParts
      [\<lparr>Path = ''sub/b'', FileSize = 0, Offset = 0, Size = 0, ActualSize = 0\<rparr>,
       \<lparr>Path = ''a'', FileSize = 5, Offset = 0, Size = 4, ActualSize = 4\<rparr>,
       \<lparr>Path = ''a'', FileSize = 5, Offset = 4, Size = 1, ActualSize = 1\<rparr>]) = Inr s)
   \<and> ListParts 4 \<lparr>Dir = ''d''\<rparr>
     \<lparr>dirs = [''d''], files = [(''d/sub/b'', []), (''d/a'', [1, 2, 3, 4, 5]), (''e/c'', [7])],
      broken = []\<rparr>
   = Some (Inr [\<lparr>Path = ''sub/b'', FileSize = 0, Offset = 0, Size = 0, ActualSize = 0\<rparr>,
                \<lparr>Path = ''a'', FileSize = 5, Offset = 0, Size = 4, ActualSize = 4\<rparr>,
                \<lparr>Path = ''a'', FileSize = 5, Offset = 4, Size = 1, ActualSize = 1\<rparr>])"
proof -
  let ?st = "\<lparr>dirs = [''d''],
              files = [(''d/sub/b'', []), (''d/a'', [1, 2, 3, 4, 5 :: byte]), (''e/c'', [7])],
              broken = []\<rparr>"
  let ?fs = "\<lparr>Dir = ''d''\<rparr>"
  let ?parts = "[\<lparr>Path = ''sub/b'', FileSize = 0, Offset = 0, Size = 0, ActualSize = 0\<rparr>,
       \<lparr>Path = ''a'', FileSize = 5, Offset = 0, Size = 4, ActualSize = 4\<rparr>,
       \<lparr>Path = ''a'', FileSize = 5, Offset = 4, Size = 1, ActualSize = 1\<rparr>]"
  have h1: "0 < (4 :: u64)" by simp
  have h2: "distinct (map fst (files ?st))" by simp
  have h3: "Dir ?fs @ ''/'' \<notin> fst ` set (files ?st)" by simp
  have h4: "ListParts 4 ?fs ?st = Some (Inr ?parts)" by code_simp
  from ListParts_tiling [OF h1 h2 h3 h4] h4 show ?thesis by blast
qed

section \<open>Properties of the download\<close>



















lemma set_SortParts [simp]: "set (SortParts ps) = set ps"
  by (simp add: SortParts_def)




lemma below_fs_path [simp]: "below (Dir fs) (fs_path fs path)"
  by (simp add: below_def fs_path_def)

lemma rel_path_fs_path [simp]: "rel_path fs (fs_path fs path) = path"
  by (simp add: rel_path_def fs_path_def)







section \<open>Properties of a run\<close>










section \<open>The tiling rule\<close>






















end
